theory Spec2Isabelle
  imports Main "HOL-Library.Multiset"
begin

section \<open>The colour name picker\<close>

text \<open>
  The program \<^verbatim>\<open>color_name_picker.py\<close> is a script of two loops. The first one (the
  name normalizer, lines 16 to 57) turns the rows of \<^verbatim>\<open>colors.txt\<close> into a list of
  candidates \<^verbatim>\<open>all_colors\<close>; the second one (the greedy matcher, lines 63 to 113)
  repeatedly pairs the closest palette entry of \<^verbatim>\<open>colors.json\<close> with the closest
  candidate. The script's mutable globals are passed explicitly, an exception is a
  value of type \<open>error\<close>, and Python's \<^verbatim>\<open>int\<close> is \<open>int\<close>.

  A character is a \<open>char\<close>, read as the code point of that number, so the texts of the
  model are the ones whose code points are all below 256. The input of the model is
  the text that \<^verbatim>\<open>f.read()\<close> returns.
\<close>

datatype error = ValueError | IndexError

subsection \<open>Strings\<close>

text \<open>\<^verbatim>\<open>str.isspace\<close> on one character: the white space that \<^verbatim>\<open>str.split()\<close> splits at.\<close>

definition isspace :: "char \<Rightarrow> bool" where
  "isspace c =
     (let n = (of_char c :: nat)
      in (9 \<le> n \<and> n \<le> 13) \<or> (28 \<le> n \<and> n \<le> 32) \<or> n = 133 \<or> n = 160)"

text \<open>\<^verbatim>\<open>str.isdigit\<close> on one character: the decimal digits and the superscripts 1, 2, 3.\<close>

definition isdigit :: "char \<Rightarrow> bool" where
  "isdigit c =
     (let n = (of_char c :: nat)
      in (48 \<le> n \<and> n \<le> 57) \<or> n = 178 \<or> n = 179 \<or> n = 185)"

text \<open>\<^verbatim>\<open>str.lower\<close>: the capital letters A to Z, and those of Latin-1, move up by 32.\<close>

definition lower_char :: "char \<Rightarrow> char" where
  "lower_char c =
     (let n = (of_char c :: nat)
      in if (65 \<le> n \<and> n \<le> 90) \<or> (192 \<le> n \<and> n \<le> 222 \<and> n \<noteq> 215)
         then char_of (n + 32) else c)"

definition lower :: "string \<Rightarrow> string" where
  "lower s = map lower_char s"

text \<open>
  \<^verbatim>\<open>str.upper\<close> on a string of one character. The result is a string: the sharp s
  becomes two letters. The micro sign (181) and the y with diaeresis (255) have a
  capital above 255, which \<open>char\<close> cannot hold; they are left as they are here.
\<close>

definition upper_char :: "char \<Rightarrow> string" where
  "upper_char c =
     (let n = (of_char c :: nat)
      in if (97 \<le> n \<and> n \<le> 122) \<or> (224 \<le> n \<and> n \<le> 254 \<and> n \<noteq> 247)
         then [char_of (n - 32)]
         else if n = 223 then ''SS'' else [c])"

text \<open>\<^verbatim>\<open>s.split(sep)\<close> for a separator of one character: empty pieces are kept.\<close>

fun split_sep :: "char \<Rightarrow> string \<Rightarrow> string list" where
  "split_sep sep [] = [[]]"
| "split_sep sep (c # cs) =
     (if c = sep then [] # split_sep sep cs
      else (case split_sep sep cs of
              [] \<Rightarrow> [[c]]
            | w # ws \<Rightarrow> (c # w) # ws))"

text \<open>
  \<^verbatim>\<open>s.split()\<close> without a separator: the maximal runs of characters that are not
  white space. \<open>cur\<close> is the run being read.
\<close>

fun split_ws :: "string \<Rightarrow> string \<Rightarrow> string list" where
  "split_ws cur [] = (if cur = [] then [] else [cur])"
| "split_ws cur (c # cs) =
     (if isspace c
      then (if cur = [] then split_ws [] cs else cur # split_ws [] cs)
      else split_ws (cur @ [c]) cs)"

definition split :: "string \<Rightarrow> string list" where
  "split s = split_ws [] s"

text \<open>\<^verbatim>\<open>name.startswith(p)\<close>.\<close>

definition startswith :: "string \<Rightarrow> string \<Rightarrow> bool" where
  "startswith s p = (take (length p) s = p)"

text \<open>
  \<^verbatim>\<open>s.replace(old, new)\<close> for a non-empty \<open>old\<close>: the occurrences of \<open>old\<close> are
  replaced from the left, and the search goes on after each replaced occurrence.
\<close>

function replace :: "string \<Rightarrow> string \<Rightarrow> string \<Rightarrow> string" where
  "replace s old new =
     (if s = [] \<or> old = [] then s
      else if startswith s old then new @ replace (drop (length old) s) old new
      else hd s # replace (tl s) old new)"
  by pat_completeness auto
termination
  by (relation "measure (\<lambda>(s, old, new). length s)") auto

declare replace.simps [simp del]

text \<open>
  \<^verbatim>\<open>int(s)\<close> on a string without white space (a piece of \<^verbatim>\<open>split()\<close> has none): an
  optional sign, then decimal digits, with single underscores allowed between two
  digits. Anything else raises \<^verbatim>\<open>ValueError\<close>, which is \<open>None\<close> here. The interpreter's
  limit on the number of digits is not part of the model.
\<close>

definition decimal :: "char \<Rightarrow> bool" where
  "decimal c = (let n = (of_char c :: nat) in 48 \<le> n \<and> n \<le> 57)"

definition digit_value :: "char \<Rightarrow> int" where
  "digit_value c = int (of_char c) - 48"

fun int_digits :: "int \<Rightarrow> string \<Rightarrow> int option" where
  "int_digits acc [] = Some acc"
| "int_digits acc [c] =
     (if decimal c then Some (10 * acc + digit_value c) else None)"
| "int_digits acc (c # d # ds) =
     (if decimal c then int_digits (10 * acc + digit_value c) (d # ds)
      else if c = CHR ''_'' \<and> decimal d then int_digits (10 * acc + digit_value d) ds
      else None)"

definition int_unsigned :: "string \<Rightarrow> int option" where
  "int_unsigned s =
     (case s of
        [] \<Rightarrow> None
      | c # cs \<Rightarrow> if decimal c then int_digits (digit_value c) cs else None)"

definition py_int :: "string \<Rightarrow> int option" where
  "py_int s =
     (case s of
        [] \<Rightarrow> None
      | c # cs \<Rightarrow>
          if c = CHR ''-'' then map_option uminus (int_unsigned cs)
          else if c = CHR ''+'' then int_unsigned cs
          else int_unsigned s)"

subsection \<open>The name normalizer\<close>

text \<open>
  A candidate is the tuple \<^verbatim>\<open>((int(r), int(g), int(b)), name, has_num)\<close> of line 49.
  The state of the loop is the list \<^verbatim>\<open>all_colors\<close> and the two sets
  \<^verbatim>\<open>all_colors_names\<close> and \<^verbatim>\<open>all_colors_rgbs\<close>; the latter holds triples of strings,
  the pieces of \<^verbatim>\<open>rgb.split()\<close>.
\<close>

type_synonym candidate = "(int \<times> int \<times> int) \<times> string \<times> bool"

record normalizer_state =
  all_colors :: "candidate list"
  all_colors_names :: "string set"
  all_colors_rgbs :: "(string \<times> string \<times> string) set"

definition basic_colors :: "string list" where
  "basic_colors =
     [''black'', ''red'', ''green'', ''yellow'', ''blue'', ''magenta'', ''cyan'', ''white'']"

text \<open>
  The body of the loop of line 16 on one row, a row being the list of pieces of
  \<^verbatim>\<open>line.split('\t')\<close>. Unpacking a row that has not three pieces, or an \<^verbatim>\<open>rgb\<close> that
  has not three pieces, raises \<^verbatim>\<open>ValueError\<close>; \<^verbatim>\<open>continue\<close> returns the state as it is.
  The three \<^verbatim>\<open>int\<close> conversions are evaluated from left to right when the tuple of line
  49 is built, after the name has been added to \<^verbatim>\<open>all_colors_names\<close>; an exception
  there ends the script, so the state it leaves behind is never read.
\<close>

definition normalize_row :: "normalizer_state \<Rightarrow> string list \<Rightarrow> error + normalizer_state" where
  "normalize_row st row =
     (case row of
        [rgb_field, unused, raw_name] \<Rightarrow>
          (case split rgb_field of
             [tr, tg, tb] \<Rightarrow>
               if (tr, tg, tb) \<in> all_colors_rgbs st then Inr st
               else if CHR '' '' \<in> set raw_name then Inr st
               else if startswith raw_name ''X11'' then Inr st
               else if startswith raw_name ''Web'' then Inr st
               else
                 let name = replace raw_name ''Grey'' ''Gray'' in
                 if name \<in> all_colors_names st then Inr st
                 else if lower name \<in> set basic_colors then Inr st
                 else
                   let has_num = list_ex isdigit name in
                   (case (py_int tr, py_int tg, py_int tb) of
                      (Some ir, Some ig, Some ib) \<Rightarrow>
                        Inr (st\<lparr>all_colors_names := insert name (all_colors_names st),
                                all_colors := all_colors st @ [((ir, ig, ib), name, has_num)]\<rparr>)
                    | _ \<Rightarrow> Inl ValueError)
           | _ \<Rightarrow> Inl ValueError)
      | _ \<Rightarrow> Inl ValueError)"

fun normalize_rows :: "normalizer_state \<Rightarrow> string list list \<Rightarrow> error + normalizer_state" where
  "normalize_rows st [] = Inr st"
| "normalize_rows st (row # rows) =
     (case normalize_row st row of
        Inl e \<Rightarrow> Inl e
      | Inr st' \<Rightarrow> normalize_rows st' rows)"

text \<open>
  The tests of the six \<^verbatim>\<open>continue\<close> statements of lines 19 to 41 taken together,
  on the pieces of \<^verbatim>\<open>rgb.split()\<close> and the name of a row; \<open>normalize_row\<close> does
  not use it, the properties below are stated with it.
\<close>

definition rejects :: "normalizer_state \<Rightarrow> string \<times> string \<times> string \<Rightarrow> string \<Rightarrow> bool" where
  "rejects st pieces raw_name \<longleftrightarrow>
     pieces \<in> all_colors_rgbs st \<or>
     CHR '' '' \<in> set raw_name \<or>
     startswith raw_name ''X11'' \<or>
     startswith raw_name ''Web'' \<or>
     replace raw_name ''Grey'' ''Gray'' \<in> all_colors_names st \<or>
     lower (replace raw_name ''Grey'' ''Gray'') \<in> set basic_colors"

text \<open>Lines 7 to 10: the rows of the text of \<^verbatim>\<open>colors.txt\<close>.\<close>

definition color_names :: "string \<Rightarrow> string list list" where
  "color_names text = map (split_sep (CHR 0x09)) (split_sep (CHR 0x0A) text)"

definition initial_state :: normalizer_state where
  "initial_state = \<lparr>all_colors = [], all_colors_names = {}, all_colors_rgbs = {}\<rparr>"

text \<open>
  Line 57, \<^verbatim>\<open>all_colors.sort(key=lambda a: a[2])\<close>: Python's sort is stable, and
  \<open>False\<close> is below \<open>True\<close>.
\<close>

definition sort_has_digit :: "candidate list \<Rightarrow> candidate list" where
  "sort_has_digit cs = sort_key (\<lambda>a. snd (snd a)) cs"

text \<open>Lines 12 to 57: the candidates of a catalog text.\<close>

definition name_normalizer :: "string \<Rightarrow> error + candidate list" where
  "name_normalizer text =
     (case normalize_rows initial_state (color_names text) of
        Inl e \<Rightarrow> Inl e
      | Inr st \<Rightarrow> Inr (sort_has_digit (all_colors st)))"

subsection \<open>The greedy matcher\<close>

text \<open>
  An entry of \<^verbatim>\<open>colors.json\<close> is an object with the members \<^verbatim>\<open>colorId\<close> and
  \<^verbatim>\<open>rgb\<close>, the latter an object with the members \<^verbatim>\<open>r\<close>, \<^verbatim>\<open>g\<close> and \<^verbatim>\<open>b\<close>, which
  is the triple \<open>(r, g, b)\<close> here. The member \<^verbatim>\<open>name\<close> is read in comments only.
\<close>

record palette_entry =
  colorId :: int
  rgb :: "int \<times> int \<times> int"

text \<open>Line 75: the squared distance of a palette colour and a candidate's colour.\<close>

definition dist :: "int \<times> int \<times> int \<Rightarrow> int \<times> int \<times> int \<Rightarrow> int" where
  "dist color c =
     (case color of (cr, cg, cb) \<Rightarrow>
        (case c of (r, g, b) \<Rightarrow> (r - cr)\<^sup>2 + (g - cg)\<^sup>2 + (b - cb)\<^sup>2))"

text \<open>
  The two variables \<^verbatim>\<open>best_dist\<close> and \<^verbatim>\<open>best_index\<close> are written together (lines 66
  and 67, lines 78 and 79): they are \<open>None\<close> for \<^verbatim>\<open>float("inf")\<close> and \<^verbatim>\<open>None\<close>, and
  \<open>Some (best_dist, i, j)\<close> afterwards. Line 77, \<^verbatim>\<open>best_dist > dist\<close>, is true of
  the infinite \<^verbatim>\<open>best_dist\<close> and every integer.
\<close>

type_synonym best = "(int \<times> nat \<times> nat) option"

definition best_dist_gt :: "best \<Rightarrow> int \<Rightarrow> bool" where
  "best_dist_gt bst d = (case bst of None \<Rightarrow> True | Some (best_dist, i, j) \<Rightarrow> best_dist > d)"

text \<open>Lines 74 to 79: the inner loop, at the palette index \<open>i\<close>, from the index \<open>j\<close> on.\<close>

fun scan_candidates :: "nat \<Rightarrow> int \<times> int \<times> int \<Rightarrow> nat \<Rightarrow> candidate list \<Rightarrow> best \<Rightarrow> best" where
  "scan_candidates i color j [] bst = bst"
| "scan_candidates i color j (a # rest) bst =
     (let d = dist color (fst a)
      in if best_dist_gt bst d
         then scan_candidates i color (Suc j) rest (Some (d, i, j))
         else scan_candidates i color (Suc j) rest bst)"

text \<open>Lines 70 to 79: the outer loop, from the index \<open>i\<close> on.\<close>

fun scan_colors :: "nat \<Rightarrow> palette_entry list \<Rightarrow> candidate list \<Rightarrow> best \<Rightarrow> best" where
  "scan_colors i [] cands bst = bst"
| "scan_colors i (current_color # rest) cands bst =
     scan_colors (Suc i) rest cands (scan_candidates i (rgb current_color) 0 cands bst)"

definition scan :: "palette_entry list \<Rightarrow> candidate list \<Rightarrow> best" where
  "scan colors cands = scan_colors 0 colors cands None"

text \<open>\<^verbatim>\<open>del xs[i]\<close> for an index of the list.\<close>

definition del :: "nat \<Rightarrow> 'a list \<Rightarrow> 'a list" where
  "del i xs = take i xs @ drop (Suc i) xs"

text \<open>
  An element of \<^verbatim>\<open>new_colors_names\<close> is the tuple of line 103 without its first
  component (the escape sequence \<^verbatim>\<open>test_color\<close>, which nothing reads):
  \<^verbatim>\<open>(best_dist, color, better_name)\<close>.
\<close>

type_synonym match = "int \<times> palette_entry \<times> string"

definition distance :: "match \<Rightarrow> int" where
  "distance m = fst m"

definition palette_id :: "match \<Rightarrow> int" where
  "palette_id m = colorId (fst (snd m))"

definition assigned_name :: "match \<Rightarrow> string" where
  "assigned_name m = snd (snd m)"

text \<open>
  Line 92, \<^verbatim>\<open>better_name[0].upper() + better_name[1:]\<close>: the index 0 raises
  \<^verbatim>\<open>IndexError\<close> on the empty name.
\<close>

definition capitalize :: "string \<Rightarrow> error + string" where
  "capitalize better_name =
     (case better_name of
        [] \<Rightarrow> Inl IndexError
      | x # xs \<Rightarrow> Inr (upper_char x @ xs))"

text \<open>
  One round of the loop of line 65 on the three lists \<^verbatim>\<open>colors\<close>, \<^verbatim>\<open>all_colors\<close> and
  \<^verbatim>\<open>new_colors_names\<close>: the scan, the \<^verbatim>\<open>break\<close> of line 82, or else the match of
  lines 86 to 111.
\<close>

datatype 'a step = Break | Raise error | Continue 'a

type_synonym matcher_state = "palette_entry list \<times> candidate list \<times> match list"

definition match_step :: "matcher_state \<Rightarrow> matcher_state step" where
  "match_step st =
     (case st of (colors, cands, new_colors_names) \<Rightarrow>
        (case scan colors cands of
           None \<Rightarrow> Break
         | Some (best_dist, i, j) \<Rightarrow>
             (case capitalize (fst (snd (cands ! j))) of
                Inl e \<Rightarrow> Raise e
              | Inr better_name \<Rightarrow>
                  let color = colors ! i
                  in Continue (del i colors, del j cands,
                               new_colors_names @ [(best_dist, color, better_name)]))))"

text \<open>
  The loop of line 65. Nothing in its definition says that it ends: \<open>None\<close> is the
  loop that runs forever.
\<close>

partial_function (option) matcher_loop :: "matcher_state \<Rightarrow> (error + match list) option" where
  "matcher_loop st =
     (case match_step st of
        Break \<Rightarrow> Some (Inr (snd (snd st)))
      | Raise e \<Rightarrow> Some (Inl e)
      | Continue st' \<Rightarrow> matcher_loop st')"

text \<open>Lines 61 to 111 on the palette after \<^verbatim>\<open>del colors[:16]\<close> and on the candidates.\<close>

definition greedy_matcher :: "palette_entry list \<Rightarrow> candidate list \<Rightarrow> (error + match list) option" where
  "greedy_matcher colors cands = matcher_loop (colors, cands, [])"

text \<open>
  The whole script on the palette of \<^verbatim>\<open>colors.json\<close> and the text of
  \<^verbatim>\<open>colors.txt\<close>: the matches in the order of line 113, in which line 118 prints them.
\<close>

definition color_name_picker :: "palette_entry list \<Rightarrow> string \<Rightarrow> (error + match list) option" where
  "color_name_picker colors text =
     (case name_normalizer text of
        Inl e \<Rightarrow> Some (Inl e)
      | Inr cands \<Rightarrow>
          (case greedy_matcher (drop 16 colors) cands of
             None \<Rightarrow> None
           | Some (Inl e) \<Rightarrow> Some (Inl e)
           | Some (Inr new_colors_names) \<Rightarrow> Some (Inr (sort_key palette_id new_colors_names))))"

subsection \<open>Example inputs\<close>

text \<open>Sixteen reserved palette entries, with the identifiers 0 to 15.\<close>

definition reserved :: "palette_entry list" where
  "reserved = map (\<lambda>n. \<lparr>colorId = int n, rgb = (int n, int n, int n)\<rparr>) [0..<16]"

text \<open>A catalog row: the three fields, separated by tabulators.\<close>

definition catalog_row :: "string \<Rightarrow> string \<Rightarrow> string \<Rightarrow> string" where
  "catalog_row rgb_field unused raw_name =
     rgb_field @ [CHR 0x09] @ unused @ [CHR 0x09] @ raw_name"

text \<open>Two catalog rows: the lines, separated by a line feed.\<close>

definition two_rows :: "string \<Rightarrow> string \<Rightarrow> string" where
  "two_rows line1 line2 = line1 @ [CHR 0x0A] @ line2"

section \<open>Properties\<close>

subsection \<open>Unfolding the matcher's loop\<close>

lemma matcher_loop_Break:
  "match_step st = Break \<Longrightarrow> matcher_loop st = Some (Inr (snd (snd st)))"
  by (subst matcher_loop.simps) simp

lemma matcher_loop_Raise:
  "match_step st = Raise e \<Longrightarrow> matcher_loop st = Some (Inl e)"
  by (subst matcher_loop.simps) simp

lemma matcher_loop_Continue:
  "match_step st = Continue st' \<Longrightarrow> matcher_loop st = matcher_loop st'"
  by (subst matcher_loop.simps) simp

subsection \<open>The scan finds the first pair of least distance\<close>

lemma best_dist_gt_None: "best_dist_gt None d"
  by (simp add: best_dist_gt_def)

lemma best_dist_gt_Some: "best_dist_gt (Some (b, i, j)) d \<longleftrightarrow> d < b"
  by (simp add: best_dist_gt_def)

lemma best_dist_gt_mono: "best_dist_gt bst d \<Longrightarrow> d' \<le> d \<Longrightarrow> best_dist_gt bst d'"
  by (auto simp: best_dist_gt_def split: option.splits)

lemma best_dist_gt_between: "\<not> best_dist_gt bst d \<Longrightarrow> best_dist_gt bst d' \<Longrightarrow> d' < d"
  by (auto simp: best_dist_gt_def split: option.splits)

lemma scan_candidates_cases:
  "(scan_candidates i color j0 cands bst = bst \<and>
      (\<forall>k < length cands. \<not> best_dist_gt bst (dist color (fst (cands ! k)))))
   \<or> (\<exists>k < length cands.
        scan_candidates i color j0 cands bst = Some (dist color (fst (cands ! k)), i, j0 + k) \<and>
        best_dist_gt bst (dist color (fst (cands ! k))) \<and>
        (\<forall>k' < k. dist color (fst (cands ! k)) < dist color (fst (cands ! k'))) \<and>
        (\<forall>k' < length cands. dist color (fst (cands ! k)) \<le> dist color (fst (cands ! k'))))"
proof (induction cands arbitrary: j0 bst)
  case Nil
  show ?case by simp
next
  case (Cons a rest)
  let ?d = "dist color (fst a)"
  show ?case
  proof (cases "best_dist_gt bst ?d")
    case True
    then have eq: "scan_candidates i color j0 (a # rest) bst =
        scan_candidates i color (Suc j0) rest (Some (?d, i, j0))"
      by simp
    from Cons.IH [of "Suc j0" "Some (?d, i, j0)"] show ?thesis
    proof (elim disjE conjE exE)
      assume same: "scan_candidates i color (Suc j0) rest (Some (?d, i, j0)) = Some (?d, i, j0)"
        and none: "\<forall>k<length rest. \<not> best_dist_gt (Some (?d, i, j0)) (dist color (fst (rest ! k)))"
      have "\<forall>k' < length (a # rest). ?d \<le> dist color (fst ((a # rest) ! k'))"
        using none by (auto simp: best_dist_gt_Some nth_Cons' not_less)
      with same eq True have "\<exists>k < length (a # rest).
        scan_candidates i color j0 (a # rest) bst = Some (dist color (fst ((a # rest) ! k)), i, j0 + k) \<and>
        best_dist_gt bst (dist color (fst ((a # rest) ! k))) \<and>
        (\<forall>k' < k. dist color (fst ((a # rest) ! k)) < dist color (fst ((a # rest) ! k'))) \<and>
        (\<forall>k' < length (a # rest). dist color (fst ((a # rest) ! k)) \<le> dist color (fst ((a # rest) ! k')))"
        by (intro exI [of _ 0]) simp
      then show ?thesis by blast
    next
      fix k
      assume k: "k < length rest"
        and res: "scan_candidates i color (Suc j0) rest (Some (?d, i, j0)) =
                  Some (dist color (fst (rest ! k)), i, Suc j0 + k)"
        and gt: "best_dist_gt (Some (?d, i, j0)) (dist color (fst (rest ! k)))"
        and before: "\<forall>k'<k. dist color (fst (rest ! k)) < dist color (fst (rest ! k'))"
        and all: "\<forall>k'<length rest. dist color (fst (rest ! k)) \<le> dist color (fst (rest ! k'))"
      from gt have lt: "dist color (fst (rest ! k)) < ?d" by (simp add: best_dist_gt_Some)
      have 1: "best_dist_gt bst (dist color (fst ((a # rest) ! Suc k)))"
        using best_dist_gt_mono [OF True, of "dist color (fst (rest ! k))"] lt by simp
      have 2: "\<forall>k' < Suc k. dist color (fst ((a # rest) ! Suc k)) < dist color (fst ((a # rest) ! k'))"
        using before lt by (auto simp: nth_Cons' )
      have 3: "\<forall>k' < length (a # rest). dist color (fst ((a # rest) ! Suc k)) \<le> dist color (fst ((a # rest) ! k'))"
        using all lt by (auto simp: nth_Cons')
      have "\<exists>k < length (a # rest).
        scan_candidates i color j0 (a # rest) bst = Some (dist color (fst ((a # rest) ! k)), i, j0 + k) \<and>
        best_dist_gt bst (dist color (fst ((a # rest) ! k))) \<and>
        (\<forall>k' < k. dist color (fst ((a # rest) ! k)) < dist color (fst ((a # rest) ! k'))) \<and>
        (\<forall>k' < length (a # rest). dist color (fst ((a # rest) ! k)) \<le> dist color (fst ((a # rest) ! k')))"
        using k eq res 1 2 3 by (intro exI [of _ "Suc k"]) simp
      then show ?thesis by blast
    qed
  next
    case False
    then have eq: "scan_candidates i color j0 (a # rest) bst =
        scan_candidates i color (Suc j0) rest bst"
      by simp
    from Cons.IH [of "Suc j0" bst] show ?thesis
    proof (elim disjE conjE exE)
      assume same: "scan_candidates i color (Suc j0) rest bst = bst"
        and none: "\<forall>k<length rest. \<not> best_dist_gt bst (dist color (fst (rest ! k)))"
      have "\<forall>k < length (a # rest). \<not> best_dist_gt bst (dist color (fst ((a # rest) ! k)))"
        using none False by (auto simp: nth_Cons')
      with same eq show ?thesis by simp
    next
      fix k
      assume k: "k < length rest"
        and res: "scan_candidates i color (Suc j0) rest bst =
                  Some (dist color (fst (rest ! k)), i, Suc j0 + k)"
        and gt: "best_dist_gt bst (dist color (fst (rest ! k)))"
        and before: "\<forall>k'<k. dist color (fst (rest ! k)) < dist color (fst (rest ! k'))"
        and all: "\<forall>k'<length rest. dist color (fst (rest ! k)) \<le> dist color (fst (rest ! k'))"
      from best_dist_gt_between [OF False gt] have lt: "dist color (fst (rest ! k)) < ?d" .
      have 1: "best_dist_gt bst (dist color (fst ((a # rest) ! Suc k)))"
        using gt by simp
      have 2: "\<forall>k' < Suc k. dist color (fst ((a # rest) ! Suc k)) < dist color (fst ((a # rest) ! k'))"
        using before lt by (auto simp: nth_Cons' )
      have 3: "\<forall>k' < length (a # rest). dist color (fst ((a # rest) ! Suc k)) \<le> dist color (fst ((a # rest) ! k'))"
        using all lt by (auto simp: nth_Cons')
      have "\<exists>k < length (a # rest).
        scan_candidates i color j0 (a # rest) bst = Some (dist color (fst ((a # rest) ! k)), i, j0 + k) \<and>
        best_dist_gt bst (dist color (fst ((a # rest) ! k))) \<and>
        (\<forall>k' < k. dist color (fst ((a # rest) ! k)) < dist color (fst ((a # rest) ! k'))) \<and>
        (\<forall>k' < length (a # rest). dist color (fst ((a # rest) ! k)) \<le> dist color (fst ((a # rest) ! k')))"
        using k eq res 1 2 3 by (intro exI [of _ "Suc k"]) simp
      then show ?thesis by blast
    qed
  qed
qed


lemma scan_colors_cases:
  "(scan_colors i0 colors cands bst = bst \<and>
      (\<forall>p < length colors. \<forall>k < length cands.
         \<not> best_dist_gt bst (dist (rgb (colors ! p)) (fst (cands ! k)))))
   \<or> (\<exists>p < length colors. \<exists>k < length cands.
        scan_colors i0 colors cands bst =
          Some (dist (rgb (colors ! p)) (fst (cands ! k)), i0 + p, k) \<and>
        best_dist_gt bst (dist (rgb (colors ! p)) (fst (cands ! k))) \<and>
        (\<forall>p' < length colors. \<forall>k' < length cands.
           dist (rgb (colors ! p)) (fst (cands ! k)) \<le> dist (rgb (colors ! p')) (fst (cands ! k')) \<and>
           (p' < p \<or> (p' = p \<and> k' < k) \<longrightarrow>
            dist (rgb (colors ! p)) (fst (cands ! k)) < dist (rgb (colors ! p')) (fst (cands ! k')))))"
  (is "?A i0 colors bst \<or> ?B i0 colors bst")
proof (induction colors arbitrary: i0 bst)
  case Nil
  show ?case by simp
next
  case (Cons c rest)
  let ?D = "\<lambda>cs p k. dist (rgb (cs ! p)) (fst (cands ! k))"
  let ?b1 = "scan_candidates i0 (rgb c) 0 cands bst"
  have eq: "scan_colors i0 (c # rest) cands bst = scan_colors (Suc i0) rest cands ?b1"
    by simp
  from scan_candidates_cases [of i0 "rgb c" 0 cands bst]
  consider (A1) "?b1 = bst"
      "\<forall>k<length cands. \<not> best_dist_gt bst (dist (rgb c) (fst (cands ! k)))"
    | (B1) k1 where "k1 < length cands"
      "?b1 = Some (dist (rgb c) (fst (cands ! k1)), i0, k1)"
      "best_dist_gt bst (dist (rgb c) (fst (cands ! k1)))"
      "\<forall>k'<k1. dist (rgb c) (fst (cands ! k1)) < dist (rgb c) (fst (cands ! k'))"
      "\<forall>k'<length cands. dist (rgb c) (fst (cands ! k1)) \<le> dist (rgb c) (fst (cands ! k'))"
    by auto
  then show ?case
  proof cases
    case A1
    from Cons.IH [of "Suc i0" bst]
    consider (A2) "?A (Suc i0) rest bst" | (B2) "?B (Suc i0) rest bst" by blast
    then show ?thesis
    proof cases
      case A2
      then have "?A i0 (c # rest) bst"
        using A1 eq by (auto simp: nth_Cons')
      then show ?thesis ..
    next
      case B2
      then obtain p k where pk: "p < length rest" "k < length cands"
        and res: "scan_colors (Suc i0) rest cands bst = Some (?D rest p k, Suc i0 + p, k)"
        and gt: "best_dist_gt bst (?D rest p k)"
        and mn: "\<forall>p' < length rest. \<forall>k' < length cands. ?D rest p k \<le> ?D rest p' k' \<and>
           (p' < p \<or> (p' = p \<and> k' < k) \<longrightarrow> ?D rest p k < ?D rest p' k')"
        by blast
      have row0: "\<forall>k' < length cands. ?D rest p k < dist (rgb c) (fst (cands ! k'))"
        using A1(2) gt best_dist_gt_between by blast
      have mn': "\<forall>p' < length (c # rest). \<forall>k' < length cands.
           ?D (c # rest) (Suc p) k \<le> ?D (c # rest) p' k' \<and>
           (p' < Suc p \<or> (p' = Suc p \<and> k' < k) \<longrightarrow> ?D (c # rest) (Suc p) k < ?D (c # rest) p' k')"
      proof (intro allI impI)
        fix p' k' assume "p' < length (c # rest)" "k' < length cands"
        then show "?D (c # rest) (Suc p) k \<le> ?D (c # rest) p' k' \<and>
           (p' < Suc p \<or> (p' = Suc p \<and> k' < k) \<longrightarrow> ?D (c # rest) (Suc p) k < ?D (c # rest) p' k')"
          using row0 mn by (cases p') (auto simp: less_imp_le)
      qed
      have "?B i0 (c # rest) bst"
        using pk eq A1(1) res gt mn'
        by (intro exI [of _ "Suc p"] exI [of _ k]) simp
      then show ?thesis ..
    qed
  next
    case B1
    from Cons.IH [of "Suc i0" ?b1]
    consider (A2) "?A (Suc i0) rest ?b1" | (B2) "?B (Suc i0) rest ?b1" by blast
    then show ?thesis
    proof cases
      case A2
      then have same: "scan_colors (Suc i0) rest cands ?b1 = ?b1"
        and none: "\<forall>p < length rest. \<forall>k < length cands. \<not> best_dist_gt ?b1 (?D rest p k)"
        by blast+
      have le: "\<forall>p < length rest. \<forall>k < length cands. dist (rgb c) (fst (cands ! k1)) \<le> ?D rest p k"
        using none B1(2) by (simp add: best_dist_gt_Some not_less)
      have mn': "\<forall>p' < length (c # rest). \<forall>k' < length cands.
           ?D (c # rest) 0 k1 \<le> ?D (c # rest) p' k' \<and>
           (p' < 0 \<or> (p' = 0 \<and> k' < k1) \<longrightarrow> ?D (c # rest) 0 k1 < ?D (c # rest) p' k')"
      proof (intro allI impI)
        fix p' k' assume "p' < length (c # rest)" "k' < length cands"
        then show "?D (c # rest) 0 k1 \<le> ?D (c # rest) p' k' \<and>
           (p' < 0 \<or> (p' = 0 \<and> k' < k1) \<longrightarrow> ?D (c # rest) 0 k1 < ?D (c # rest) p' k')"
          using le B1(4,5) by (cases p') auto
      qed
      have "?B i0 (c # rest) bst"
        using B1(1,2,3) eq same mn'
        by (intro exI [of _ 0] exI [of _ k1]) simp
      then show ?thesis ..
    next
      case B2
      then obtain p k where pk: "p < length rest" "k < length cands"
        and res: "scan_colors (Suc i0) rest cands ?b1 = Some (?D rest p k, Suc i0 + p, k)"
        and gt: "best_dist_gt ?b1 (?D rest p k)"
        and mn: "\<forall>p' < length rest. \<forall>k' < length cands. ?D rest p k \<le> ?D rest p' k' \<and>
           (p' < p \<or> (p' = p \<and> k' < k) \<longrightarrow> ?D rest p k < ?D rest p' k')"
        by blast
      from gt B1(2) have lt: "?D rest p k < dist (rgb c) (fst (cands ! k1))"
        by (simp add: best_dist_gt_Some)
      have gt': "best_dist_gt bst (?D rest p k)"
        using best_dist_gt_mono [OF B1(3)] lt by simp
      have row0: "\<forall>k' < length cands. ?D rest p k < dist (rgb c) (fst (cands ! k'))"
        using lt B1(5) by fastforce
      have mn': "\<forall>p' < length (c # rest). \<forall>k' < length cands.
           ?D (c # rest) (Suc p) k \<le> ?D (c # rest) p' k' \<and>
           (p' < Suc p \<or> (p' = Suc p \<and> k' < k) \<longrightarrow> ?D (c # rest) (Suc p) k < ?D (c # rest) p' k')"
      proof (intro allI impI)
        fix p' k' assume "p' < length (c # rest)" "k' < length cands"
        then show "?D (c # rest) (Suc p) k \<le> ?D (c # rest) p' k' \<and>
           (p' < Suc p \<or> (p' = Suc p \<and> k' < k) \<longrightarrow> ?D (c # rest) (Suc p) k < ?D (c # rest) p' k')"
          using row0 mn by (cases p') (auto simp: less_imp_le)
      qed
      have "?B i0 (c # rest) bst"
        using pk eq res gt' mn'
        by (intro exI [of _ "Suc p"] exI [of _ k]) simp
      then show ?thesis ..
    qed
  qed
qed

lemma scan_None: "scan colors cands = None \<longleftrightarrow> colors = [] \<or> cands = []"
  using scan_colors_cases [of 0 colors cands None]
  by (auto simp: scan_def best_dist_gt_None)

lemma scan_Some:
  assumes "scan colors cands = Some (d, i, j)"
  shows "i < length colors" and "j < length cands"
    and "d = dist (rgb (colors ! i)) (fst (cands ! j))"
    and "\<And>p k. p < length colors \<Longrightarrow> k < length cands \<Longrightarrow>
           d \<le> dist (rgb (colors ! p)) (fst (cands ! k))"
    and "\<And>p k. p < length colors \<Longrightarrow> k < length cands \<Longrightarrow> p < i \<or> (p = i \<and> k < j) \<Longrightarrow>
           d < dist (rgb (colors ! p)) (fst (cands ! k))"
  using scan_colors_cases [of 0 colors cands None] assms
  by (auto simp: scan_def)

subsection \<open>One round of the matcher, and its loop\<close>

lemma length_del: "i < length xs \<Longrightarrow> Suc (length (del i xs)) = length xs"
  by (auto simp: del_def)

lemma set_del: "set (del i xs) \<subseteq> set xs"
  using set_take_subset [of i xs] set_drop_subset [of "Suc i" xs] by (auto simp: del_def)

lemma mset_del: "i < length xs \<Longrightarrow> add_mset (xs ! i) (mset (del i xs)) = mset xs"
proof -
  assume "i < length xs"
  then have "xs = take i xs @ xs ! i # drop (Suc i) xs"
    by (rule id_take_nth_drop)
  then have "mset xs = mset (take i xs @ xs ! i # drop (Suc i) xs)"
    by simp
  then show ?thesis
    by (simp add: del_def)
qed


lemma match_step_Break: "match_step (colors, cands, out) = Break \<longleftrightarrow> colors = [] \<or> cands = []"
  using scan_None [of colors cands]
  by (auto simp: match_step_def Let_def split: option.splits sum.splits)

lemma match_step_Continue:
  assumes "match_step (colors, cands, out) = Continue (colors', cands', out')"
  shows "\<exists>d i j better_name.
           scan colors cands = Some (d, i, j) \<and> i < length colors \<and> j < length cands \<and>
           capitalize (fst (snd (cands ! j))) = Inr better_name \<and>
           colors' = del i colors \<and> cands' = del j cands \<and>
           out' = out @ [(d, colors ! i, better_name)]"
  using assms scan_Some(1,2) [of colors cands]
  by (auto simp: match_step_def Let_def split: option.splits sum.splits)

lemma matcher_loop_terminates: "\<exists>res. matcher_loop (colors, cands, out) = Some res"
proof (induction "length colors" arbitrary: colors cands out rule: less_induct)
  case less
  show ?case
  proof (cases "match_step (colors, cands, out)")
    case Break
    then show ?thesis by (simp add: matcher_loop_Break)
  next
    case (Raise e)
    then show ?thesis by (simp add: matcher_loop_Raise)
  next
    case (Continue st')
    obtain colors' cands' out' where st': "st' = (colors', cands', out')"
      by (cases st') auto
    from match_step_Continue [OF Continue [unfolded st']]
    have "length colors' < length colors"
      using length_del by fastforce
    from less [OF this] show ?thesis
      using matcher_loop_Continue [OF Continue] st' by simp
  qed
qed

lemma matcher_loop_invariant:
  assumes "matcher_loop st = Some (Inr ms)"
    and "P st"
    and "\<And>s s'. P s \<Longrightarrow> match_step s = Continue s' \<Longrightarrow> P s'"
  shows "\<exists>colors cands. P (colors, cands, ms) \<and> (colors = [] \<or> cands = [])"
  using assms(1,2)
proof (induction "length (fst st)" arbitrary: st rule: less_induct)
  case less
  obtain colors cands out where st: "st = (colors, cands, out)"
    by (cases st) auto
  show ?case
  proof (cases "match_step st")
    case Break
    then have "ms = out" "colors = [] \<or> cands = []"
      using less.prems(1) st match_step_Break [of colors cands out]
      by (auto simp: matcher_loop_Break)
    then show ?thesis using less.prems(2) st by blast
  next
    case (Raise e)
    then show ?thesis using less.prems(1) by (simp add: matcher_loop_Raise)
  next
    case (Continue st')
    obtain colors' cands' out' where st': "st' = (colors', cands', out')"
      by (cases st') auto
    from match_step_Continue [OF Continue [unfolded st st']]
    have "length (fst st') < length (fst st)"
      using length_del st st' by fastforce
    moreover have "matcher_loop st' = Some (Inr ms)"
      using less.prems(1) matcher_loop_Continue [OF Continue] by simp
    moreover have "P st'"
      using assms(3) less.prems(2) Continue by blast
    ultimately show ?thesis
      using less.hyps by blast
  qed
qed

subsection \<open>The distances of the matches grow\<close>

lemma sorted_matches_step:
  assumes P: "sorted (map distance out) \<and>
        (\<forall>m \<in> set out. \<forall>c \<in> set colors. \<forall>a \<in> set cands. distance m \<le> dist (rgb c) (fst a))"
    and step: "match_step (colors, cands, out) = Continue (colors', cands', out')"
  shows "sorted (map distance out') \<and>
        (\<forall>m \<in> set out'. \<forall>c \<in> set colors'. \<forall>a \<in> set cands'. distance m \<le> dist (rgb c) (fst a))"
proof -
  from match_step_Continue [OF step] obtain d i j better_name where
    sc: "scan colors cands = Some (d, i, j)" and i: "i < length colors" and j: "j < length cands"
    and eqs: "colors' = del i colors" "cands' = del j cands" "out' = out @ [(d, colors ! i, better_name)]"
    by blast
  have d: "d = dist (rgb (colors ! i)) (fst (cands ! j))"
    using scan_Some(3) [OF sc] .
  have least: "\<forall>c \<in> set colors. \<forall>a \<in> set cands. d \<le> dist (rgb c) (fst a)"
    using scan_Some(4) [OF sc] by (metis in_set_conv_nth)
  have below: "\<forall>m \<in> set out. distance m \<le> d"
    using P i j d by simp
  have 1: "sorted (map distance out')"
    using P below by (simp add: eqs sorted_append distance_def)
  have 2: "\<forall>m \<in> set out'. \<forall>c \<in> set colors'. \<forall>a \<in> set cands'. distance m \<le> dist (rgb c) (fst a)"
  proof (intro ballI)
    fix m c a
    assume m: "m \<in> set out'" and "c \<in> set colors'" and "a \<in> set cands'"
    then have ca: "c \<in> set colors" "a \<in> set cands"
      using set_del [of i colors] set_del [of j cands] eqs by auto
    from m have "m \<in> set out \<or> distance m = d"
      by (auto simp: eqs distance_def)
    then show "distance m \<le> dist (rgb c) (fst a)"
      using P least ca by auto
  qed
  from 1 2 show ?thesis ..
qed

subsection \<open>Every palette entry and every candidate is used once\<close>

lemma mset_map_del:
  "i < length xs \<Longrightarrow> add_mset (f (xs ! i)) (mset (map f (del i xs))) = mset (map f xs)"
  using mset_del [of i xs] by (metis image_mset_add_mset mset_map)

lemma used_once_step:
  assumes step: "match_step (colors, cands, out) = Continue (colors', cands', out')"
  shows "mset (map colorId colors') + mset (map palette_id out') =
         mset (map colorId colors) + mset (map palette_id out)"
    and "mset (map (\<lambda>a. capitalize (fst (snd a))) cands') + mset (map (\<lambda>m. Inr (assigned_name m)) out') =
         mset (map (\<lambda>a. capitalize (fst (snd a))) cands) + mset (map (\<lambda>m. Inr (assigned_name m)) out)"
proof -
  from match_step_Continue [OF step] obtain d i j better_name where
    i: "i < length colors" and j: "j < length cands"
    and cap: "capitalize (fst (snd (cands ! j))) = Inr better_name"
    and eqs: "colors' = del i colors" "cands' = del j cands" "out' = out @ [(d, colors ! i, better_name)]"
    by blast
  show "mset (map colorId colors') + mset (map palette_id out') =
         mset (map colorId colors) + mset (map palette_id out)"
    using mset_map_del [OF i, of colorId] by (simp add: eqs palette_id_def)
  show "mset (map (\<lambda>a. capitalize (fst (snd a))) cands') + mset (map (\<lambda>m. Inr (assigned_name m)) out') =
         mset (map (\<lambda>a. capitalize (fst (snd a))) cands) + mset (map (\<lambda>m. Inr (assigned_name m)) out)"
    using mset_map_del [OF j, of "\<lambda>a. capitalize (fst (snd a))"] cap
    by (simp add: eqs assigned_name_def)
qed

lemma greedy_matcher_used_once:
  assumes "greedy_matcher colors cands = Some (Inr ms)"
  shows "\<exists>(colors' :: palette_entry list) (cands' :: candidate list).
      mset (map colorId colors') + mset (map palette_id ms) = mset (map colorId colors) \<and>
      mset (map (\<lambda>a. capitalize (fst (snd a))) cands') + mset (map (\<lambda>m. Inr (assigned_name m)) ms) =
        mset (map (\<lambda>a. capitalize (fst (snd a))) cands)"
proof -
  define P :: "matcher_state \<Rightarrow> bool" where
    "P = (\<lambda>st. mset (map colorId (fst st)) + mset (map palette_id (snd (snd st))) =
                  mset (map colorId colors) \<and>
               mset (map (\<lambda>a. capitalize (fst (snd a))) (fst (snd st))) +
                 mset (map (\<lambda>m. Inr (assigned_name m)) (snd (snd st))) =
                  mset (map (\<lambda>a. capitalize (fst (snd a))) cands))"
  have loop: "matcher_loop (colors, cands, []) = Some (Inr ms)"
    using assms by (simp add: greedy_matcher_def)
  have init: "P (colors, cands, [])"
    by (simp add: P_def)
  have step: "P s'" if "P s" and "match_step s = Continue s'" for s s'
    using that used_once_step [of "fst s" "fst (snd s)" "snd (snd s)" "fst s'" "fst (snd s')" "snd (snd s')"]
    by (simp add: P_def)
  have "\<exists>colors' cands'. P (colors', cands', ms) \<and> (colors' = [] \<or> cands' = [])"
  proof (rule matcher_loop_invariant [of "(colors, cands, [])" ms P, OF loop init])
    fix s s' assume "P s" "match_step s = Continue s'"
    then show "P s'" by (rule step)
  qed
  then obtain colors' cands' where "P (colors', cands', ms)"
    by blast
  then have "mset (map colorId colors') + mset (map palette_id ms) = mset (map colorId colors) \<and>
      mset (map (\<lambda>a. capitalize (fst (snd a))) cands') + mset (map (\<lambda>m. Inr (assigned_name m)) ms) =
        mset (map (\<lambda>a. capitalize (fst (snd a))) cands)"
    by (simp only: P_def fst_conv snd_conv)
  then show ?thesis by blast
qed

lemma distinct_part:
  assumes "mset xs + mset ys = mset zs" and "distinct zs"
  shows "distinct ys"
proof -
  from assms(1) have "mset (xs @ ys) = mset zs" by simp
  then have "distinct (xs @ ys)"
    using assms(2) mset_eq_imp_distinct_iff by blast
  then show ?thesis by simp
qed

lemma distinct_map_Inr:
  "distinct (map (\<lambda>x. (Inr (f x) :: 'e + 'b)) xs) \<Longrightarrow> distinct (map f xs)"
  by (induction xs) auto

lemma greedy_matcher_unique:
  assumes run: "greedy_matcher colors cands = Some (Inr ms)"
  shows "distinct (map colorId colors) \<Longrightarrow> distinct (map palette_id ms)"
    and "distinct (map (\<lambda>a. capitalize (fst (snd a))) cands) \<Longrightarrow> distinct (map assigned_name ms)"
proof -
  from greedy_matcher_used_once [OF run]
  obtain colors' :: "palette_entry list" and cands' :: "candidate list" where
    ids: "mset (map colorId colors') + mset (map palette_id ms) = mset (map colorId colors)"
    and names: "mset (map (\<lambda>a. capitalize (fst (snd a))) cands') + mset (map (\<lambda>m. Inr (assigned_name m)) ms) =
        mset (map (\<lambda>a. capitalize (fst (snd a))) cands)"
    by blast
  show "distinct (map palette_id ms)" if "distinct (map colorId colors)"
    using distinct_part [OF ids that] .
  show "distinct (map assigned_name ms)" if "distinct (map (\<lambda>a. capitalize (fst (snd a))) cands)"
  proof -
    have "distinct (map (\<lambda>m. (Inr (assigned_name m) :: error + string)) ms)"
      using distinct_part [OF names that] .
    then show ?thesis
      by (rule distinct_map_Inr)
  qed
qed

lemma distinct_map_sort_key:
  "distinct (map f (sort_key k xs)) \<longleftrightarrow> distinct (map f xs)"
proof -
  have "mset (map f (sort_key k xs)) = mset (map f xs)" by simp
  then show ?thesis by (rule mset_eq_imp_distinct_iff)
qed

subsection \<open>The rows of the normalizer\<close>

lemma normalize_rows_append:
  "normalize_rows st (xs @ ys) =
     (case normalize_rows st xs of Inl e \<Rightarrow> Inl e | Inr st' \<Rightarrow> normalize_rows st' ys)"
  by (induction xs arbitrary: st) (auto split: sum.splits)

lemma normalize_row_short: "length row \<noteq> 3 \<Longrightarrow> normalize_row st row = Inl ValueError"
  by (auto simp: normalize_row_def split: list.splits)

lemma normalize_row_pieces:
  "length (split rgb_field) \<noteq> 3 \<Longrightarrow>
     normalize_row st [rgb_field, unused, raw_name] = Inl ValueError"
  by (auto simp: normalize_row_def split: list.splits)

lemma normalize_row_three:
  "split rgb_field = [tr, tg, tb] \<Longrightarrow>
   normalize_row st [rgb_field, unused, raw_name] =
     (if rejects st (tr, tg, tb) raw_name then Inr st
      else (case (py_int tr, py_int tg, py_int tb) of
              (Some ir, Some ig, Some ib) \<Rightarrow>
                 Inr (st\<lparr>all_colors_names :=
                            insert (replace raw_name ''Grey'' ''Gray'') (all_colors_names st),
                         all_colors := all_colors st @
                            [((ir, ig, ib), replace raw_name ''Grey'' ''Gray'',
                              list_ex isdigit (replace raw_name ''Grey'' ''Gray''))]\<rparr>)
            | _ \<Rightarrow> Inl ValueError))"
  by (simp add: normalize_row_def rejects_def Let_def)

lemma normalize_row_error: "normalize_row st row = Inl e \<Longrightarrow> e = ValueError"
  by (auto simp: normalize_row_def Let_def split: list.splits if_splits option.splits)

lemma normalize_rows_error: "normalize_rows st rows = Inl e \<Longrightarrow> e = ValueError"
  by (induction rows arbitrary: st) (auto split: sum.splits dest: normalize_row_error)

lemma normalize_rows_bad_row:
  assumes "row \<in> set rows" and "\<And>st'. normalize_row st' row = Inl ValueError"
  shows "normalize_rows st rows = Inl ValueError"
  using assms(1)
proof (induction rows arbitrary: st)
  case Nil
  then show ?case by simp
next
  case (Cons r rows)
  show ?case
  proof (cases "normalize_row st r")
    case (Inl e)
    then show ?thesis using normalize_row_error by auto
  next
    case (Inr st')
    show ?thesis
    proof (cases "r = row")
      case True
      then show ?thesis using assms(2) [of st] Inr by simp
    next
      case False
      then show ?thesis using Cons Inr by simp
    qed
  qed
qed

lemma normalize_rows_malformed:
  assumes "row \<in> set rows" and "length row \<noteq> 3 \<or> length (split (hd row)) \<noteq> 3"
  shows "normalize_rows st rows = Inl ValueError"
proof (rule normalize_rows_bad_row [OF assms(1)])
  fix st'
  show "normalize_row st' row = Inl ValueError"
  proof (cases "length row = 3")
    case False
    then show ?thesis by (rule normalize_row_short)
  next
    case True
    then obtain rgb_field unused raw_name where row: "row = [rgb_field, unused, raw_name]"
      by (auto simp: length_Suc_conv numeral_3_eq_3)
    with assms(2) True show ?thesis
      by (simp add: normalize_row_pieces)
  qed
qed

lemma normalize_rows_skip:
  assumes "normalize_rows st pre = Inr st'"
    and "normalize_row st' row = Inr st'"
  shows "normalize_rows st (pre @ row # post) = normalize_rows st (pre @ post)"
  using assms by (simp add: normalize_rows_append)

lemma normalize_rows_abort:
  assumes "normalize_rows st pre = Inr st'"
    and "normalize_row st' row = Inl e"
  shows "normalize_rows st (pre @ row # post) = Inl e"
  using assms by (simp add: normalize_rows_append)


subsection \<open>Sorting on a truth value\<close>

lemma sorted_bool_key:
  "sorted (map f ys) \<Longrightarrow> ys = filter (\<lambda>y. \<not> f y) ys @ filter f ys"
proof (induction ys)
  case Nil
  show ?case by simp
next
  case (Cons y ys)
  show ?case
  proof (cases "f y")
    case True
    with Cons.prems have "\<forall>z \<in> set ys. f z" by auto
    then have "filter (\<lambda>y. \<not> f y) ys = []" "filter f ys = ys"
      by (auto simp: filter_empty_conv)
    with True show ?thesis by simp
  next
    case False
    with Cons show ?thesis by simp
  qed
qed

lemma sort_key_bool:
  "sort_key f xs = filter (\<lambda>x. \<not> f x) xs @ filter f xs"
proof -
  have "sort_key f xs = filter (\<lambda>y. \<not> f y) (sort_key f xs) @ filter f (sort_key f xs)"
    by (rule sorted_bool_key) simp
  moreover have "filter (\<lambda>y. f y = False) (sort_key f xs) = filter (\<lambda>y. f y = False) xs"
    by (rule sort_key_stable)
  moreover have "filter (\<lambda>y. f y = True) (sort_key f xs) = filter (\<lambda>y. f y = True) xs"
    by (rule sort_key_stable)
  ultimately show ?thesis by simp
qed

subsection \<open>No accepted name holds a space\<close>



subsection \<open>The example palette\<close>

lemma length_reserved: "length reserved = 16"
  by (simp add: reserved_def)

section \<open>The claims\<close>

text \<open>
  C1. The normalizer is said to keep, of two catalog rows with the same colour, the
  first one only, so that no two candidates have the same colour. Line 19 tests
  \<^verbatim>\<open>all_colors_rgbs\<close>, but no line adds to this set: on two rows with the colour
  \<^verbatim>\<open>1 2 3\<close> and the names \<^verbatim>\<open>foo\<close> and \<^verbatim>\<open>bar\<close>, both rows become candidates.
\<close>

theorem rgb_dedup_not_applied:
  "name_normalizer (two_rows (catalog_row ''1 2 3'' ''0'' ''foo'') (catalog_row ''1 2 3'' ''0'' ''bar''))
     = Inr [((1, 2, 3), ''foo'', False), ((1, 2, 3), ''bar'', False)]"
  by code_simp

text \<open>
  C4. The tie-break of the scan. The scan of the palette entries (outer loop) and the
  candidates (inner loop) returns no pair exactly when one of the two lists is empty, so
  it returns a pair whenever there is one. When it returns the pair \<open>(i, j)\<close> with the
  distance \<open>d\<close>, then this pair is a pair of the two lists, \<open>d\<close> is its distance, no
  pair is closer, and every pair at the same distance comes at \<open>(i, j)\<close> or later in
  the order of the scan: the first pair of least distance wins, and a later one at the
  same distance does not replace it.
\<close>

theorem scan_first_minimum:
  "(scan colors cands = None \<longleftrightarrow> colors = [] \<or> cands = []) \<and>
   (scan colors cands = Some (d, i, j) \<longrightarrow>
      i < length colors \<and> j < length cands \<and>
      d = dist (rgb (colors ! i)) (fst (cands ! j)) \<and>
      (\<forall>p < length colors. \<forall>k < length cands.
         d \<le> dist (rgb (colors ! p)) (fst (cands ! k)) \<and>
         (dist (rgb (colors ! p)) (fst (cands ! k)) = d \<longrightarrow> i < p \<or> (i = p \<and> j \<le> k))))"
proof (rule conjI)
  show "scan colors cands = None \<longleftrightarrow> colors = [] \<or> cands = []"
    by (rule scan_None)
next
  have "i < length colors \<and> j < length cands \<and>
      d = dist (rgb (colors ! i)) (fst (cands ! j)) \<and>
      (\<forall>p < length colors. \<forall>k < length cands.
         d \<le> dist (rgb (colors ! p)) (fst (cands ! k)) \<and>
         (dist (rgb (colors ! p)) (fst (cands ! k)) = d \<longrightarrow> i < p \<or> (i = p \<and> j \<le> k)))"
    if sc: "scan colors cands = Some (d, i, j)"
  proof -
    have "i < p \<or> (i = p \<and> j \<le> k)"
      if "p < length colors" "k < length cands"
        "dist (rgb (colors ! p)) (fst (cands ! k)) = d" for p k
    proof (rule ccontr)
      assume "\<not> (i < p \<or> (i = p \<and> j \<le> k))"
      then have "p < i \<or> (p = i \<and> k < j)" by auto
      from scan_Some(5) [OF sc that(1,2) this] that(3) show False by simp
    qed
    then show ?thesis
      using scan_Some(1,2,3) [OF sc] scan_Some(4) [OF sc] by blast
  qed
  then show "scan colors cands = Some (d, i, j) \<longrightarrow>
      i < length colors \<and> j < length cands \<and>
      d = dist (rgb (colors ! i)) (fst (cands ! j)) \<and>
      (\<forall>p < length colors. \<forall>k < length cands.
         d \<le> dist (rgb (colors ! p)) (fst (cands ! k)) \<and>
         (dist (rgb (colors ! p)) (fst (cands ! k)) = d \<longrightarrow> i < p \<or> (i = p \<and> j \<le> k)))"
    by (rule impI)
qed

theorem scan_first_minimum_witness:
  "scan [\<lparr>colorId = 16, rgb = (10, 10, 10)\<rparr>, \<lparr>colorId = 17, rgb = (20, 20, 20)\<rparr>]
        [((11, 10, 10), ''a'', False), ((10, 11, 10), ''b'', False), ((20, 20, 21), ''c'', False)]
     = Some (1, 0, 0) \<and>
   scan [\<lparr>colorId = 16, rgb = (10, 10, 10)\<rparr>, \<lparr>colorId = 17, rgb = (20, 20, 20)\<rparr>]
        [((11, 10, 10), ''a'', False), ((10, 11, 10), ''b'', False), ((20, 20, 21), ''c'', False)]
     \<noteq> None \<and>
   dist (10, 10, 10) (10, 11, 10) = 1 \<and> dist (20, 20, 20) (20, 20, 21) = 1 \<and>
   (1::int) \<le> dist (20, 20, 20) (11, 10, 10)"
proof -
  let ?colors = "[\<lparr>colorId = 16, rgb = (10, 10, 10)\<rparr>, \<lparr>colorId = 17, rgb = (20, 20, 20)\<rparr>]"
  let ?cands = "[((11, 10, 10), ''a'', False), ((10, 11, 10), ''b'', False),
      ((20, 20, 21), ''c'', False)] :: candidate list"
  note w = scan_first_minimum [of ?colors ?cands 1 0 0]
  have h: "scan ?colors ?cands = Some (1, 0, 0)"
    by code_simp
  have some: "scan ?colors ?cands \<noteq> None"
    using w [THEN conjunct1] by simp
  have 1: "dist (10, 10, 10) (10, 11, 10) = 1" "dist (20, 20, 20) (20, 20, 21) = 1"
    by (simp_all add: dist_def)
  have "(1::int) \<le> dist (rgb (?colors ! 1)) (fst (?cands ! 0))"
    using w [THEN conjunct2, THEN mp, OF h, THEN conjunct2, THEN conjunct2, THEN conjunct2,
        rule_format, of 1 0]
    by simp
  then show ?thesis using h some 1 by simp
qed

text \<open>
  C6. The scenario: on a palette of 17 entries, the last of which has the identifier 99
  and the colour (10, 10, 10), and on the catalog of the single row
  \<^verbatim>\<open>12 12 12\<close>, \<^verbatim>\<open>0\<close>, \<^verbatim>\<open>nearblack\<close>, the script yields one match: the
  identifier 99, the name \<^verbatim>\<open>Nearblack\<close> and the distance 12.
\<close>

theorem nearblack_scenario:
  "length pre = 16 \<Longrightarrow>
   color_name_picker (pre @ [\<lparr>colorId = 99, rgb = (10, 10, 10)\<rparr>])
     (catalog_row ''12 12 12'' ''0'' ''nearblack'')
     = Some (Inr [(12, \<lparr>colorId = 99, rgb = (10, 10, 10)\<rparr>, ''Nearblack'')])"
proof -
  assume pre: "length pre = 16"
  have n: "name_normalizer (catalog_row ''12 12 12'' ''0'' ''nearblack'')
             = Inr [((12, 12, 12), ''nearblack'', False)]"
    by code_simp
  have s1: "match_step ([\<lparr>colorId = 99, rgb = (10, 10, 10)\<rparr>],
                        [((12, 12, 12), ''nearblack'', False)], [])
             = Continue ([], [], [(12, \<lparr>colorId = 99, rgb = (10, 10, 10)\<rparr>, ''Nearblack'')])"
    by code_simp
  have s2: "match_step ([], [], [(12, \<lparr>colorId = 99, rgb = (10, 10, 10)\<rparr>, ''Nearblack'')])
             = Break"
    by code_simp
  show ?thesis
    using pre
    by (simp add: n color_name_picker_def greedy_matcher_def
        matcher_loop_Continue [OF s1] matcher_loop_Break [OF s2])
qed

theorem nearblack_scenario_witness:
  "length reserved = 16 \<and>
   color_name_picker (reserved @ [\<lparr>colorId = 99, rgb = (10, 10, 10)\<rparr>])
     (catalog_row ''12 12 12'' ''0'' ''nearblack'')
     = Some (Inr [(12, \<lparr>colorId = 99, rgb = (10, 10, 10)\<rparr>, ''Nearblack'')])"
proof -
  have h: "length reserved = 16" by (rule length_reserved)
  show ?thesis using h nearblack_scenario [OF h] by simp
qed

text \<open>
  C10. Every accepted candidate is said to have a non-empty name, so that line 92 never
  reads out of range. No test of the normalizer refuses the empty name: the row
  \<^verbatim>\<open>1 2 3\<close>, \<^verbatim>\<open>0\<close> and an empty third field becomes a candidate, and the match of this
  candidate raises \<^verbatim>\<open>IndexError\<close>.
\<close>

theorem empty_name_index_error:
  "name_normalizer (catalog_row ''1 2 3'' ''0'' []) = Inr [((1, 2, 3), [], False)] \<and>
   color_name_picker (reserved @ [\<lparr>colorId = 99, rgb = (10, 10, 10)\<rparr>])
     (catalog_row ''1 2 3'' ''0'' []) = Some (Inl IndexError)"
proof -
  have n: "name_normalizer (catalog_row ''1 2 3'' ''0'' []) = Inr [((1, 2, 3), [], False)]"
    by code_simp
  have s: "match_step ([\<lparr>colorId = 99, rgb = (10, 10, 10)\<rparr>], [((1, 2, 3), [], False)], [])
             = Raise IndexError"
    by code_simp
  show ?thesis
    by (simp add: n color_name_picker_def greedy_matcher_def length_reserved matcher_loop_Raise [OF s])
qed

text \<open>
  C5. The distances grow: in the order in which the matcher produces the matches (the
  order of \<^verbatim>\<open>new_colors_names\<close> before the sort of line 113), the distance of every
  match is at least the distance of the match before it.
\<close>

theorem distances_nondecreasing:
  "greedy_matcher colors cands = Some (Inr ms) \<Longrightarrow> sorted (map distance ms)"
proof -
  assume run: "greedy_matcher colors cands = Some (Inr ms)"
  define P :: "matcher_state \<Rightarrow> bool" where
    "P = (\<lambda>st. sorted (map distance (snd (snd st))) \<and>
        (\<forall>m \<in> set (snd (snd st)). \<forall>c \<in> set (fst st). \<forall>a \<in> set (fst (snd st)).
           distance m \<le> dist (rgb c) (fst a)))"
  have loop: "matcher_loop (colors, cands, []) = Some (Inr ms)"
    using run by (simp add: greedy_matcher_def)
  have init: "P (colors, cands, [])"
    by (simp add: P_def)
  have "\<exists>colors' cands'. P (colors', cands', ms) \<and> (colors' = [] \<or> cands' = [])"
  proof (rule matcher_loop_invariant [of "(colors, cands, [])" ms P, OF loop init])
    fix s s' assume "P s" "match_step s = Continue s'"
    then show "P s'"
      using sorted_matches_step [of "snd (snd s)" "fst s" "fst (snd s)"
          "fst s'" "fst (snd s')" "snd (snd s')"]
      by (simp add: P_def)
  qed
  then show "sorted (map distance ms)"
    by (auto simp: P_def)
qed

theorem distances_nondecreasing_witness:
  "greedy_matcher
     [\<lparr>colorId = 16, rgb = (10, 10, 10)\<rparr>, \<lparr>colorId = 17, rgb = (20, 20, 20)\<rparr>]
     [((20, 20, 21), ''far'', False), ((10, 10, 10), ''near'', False)]
     = Some (Inr [(0, \<lparr>colorId = 16, rgb = (10, 10, 10)\<rparr>, ''Near''),
                  (1, \<lparr>colorId = 17, rgb = (20, 20, 20)\<rparr>, ''Far'')]) \<and>
   sorted (map distance [(0, \<lparr>colorId = 16, rgb = (10, 10, 10)\<rparr>, ''Near''),
                         (1, \<lparr>colorId = 17, rgb = (20, 20, 20)\<rparr>, ''Far'')])"
proof -
  have s1: "match_step
      ([\<lparr>colorId = 16, rgb = (10, 10, 10)\<rparr>, \<lparr>colorId = 17, rgb = (20, 20, 20)\<rparr>],
       [((20, 20, 21), ''far'', False), ((10, 10, 10), ''near'', False)], [])
    = Continue ([\<lparr>colorId = 17, rgb = (20, 20, 20)\<rparr>], [((20, 20, 21), ''far'', False)],
                [(0, \<lparr>colorId = 16, rgb = (10, 10, 10)\<rparr>, ''Near'')])"
    by code_simp
  have s2: "match_step
      ([\<lparr>colorId = 17, rgb = (20, 20, 20)\<rparr>], [((20, 20, 21), ''far'', False)],
       [(0, \<lparr>colorId = 16, rgb = (10, 10, 10)\<rparr>, ''Near'')])
    = Continue ([], [],
                [(0, \<lparr>colorId = 16, rgb = (10, 10, 10)\<rparr>, ''Near''),
                 (1, \<lparr>colorId = 17, rgb = (20, 20, 20)\<rparr>, ''Far'')])"
    by code_simp
  have s3: "match_step
      ([], [],
       [(0, \<lparr>colorId = 16, rgb = (10, 10, 10)\<rparr>, ''Near''),
        (1, \<lparr>colorId = 17, rgb = (20, 20, 20)\<rparr>, ''Far'')])
    = Break"
    by code_simp
  have h: "greedy_matcher
     [\<lparr>colorId = 16, rgb = (10, 10, 10)\<rparr>, \<lparr>colorId = 17, rgb = (20, 20, 20)\<rparr>]
     [((20, 20, 21), ''far'', False), ((10, 10, 10), ''near'', False)]
     = Some (Inr [(0, \<lparr>colorId = 16, rgb = (10, 10, 10)\<rparr>, ''Near''),
                  (1, \<lparr>colorId = 17, rgb = (20, 20, 20)\<rparr>, ''Far'')])"
    unfolding greedy_matcher_def
    by (simp add: matcher_loop_Continue [OF s1] matcher_loop_Continue [OF s2]
        matcher_loop_Break [OF s3])
  show ?thesis using h distances_nondecreasing [OF h] by simp
qed

lemma matcher_loop_rounds:
  assumes "matcher_loop (colors, cands, out) = Some (Inr ms)"
  shows "length ms = length out + min (length colors) (length cands)"
proof -
  define P :: "matcher_state \<Rightarrow> bool" where
    "P = (\<lambda>st. length (snd (snd st)) + min (length (fst st)) (length (fst (snd st))) =
               length out + min (length colors) (length cands))"
  have init: "P (colors, cands, out)"
    by (simp add: P_def)
  have "\<exists>colors' cands'. P (colors', cands', ms) \<and> (colors' = [] \<or> cands' = [])"
  proof (rule matcher_loop_invariant [of "(colors, cands, out)" ms P, OF assms init])
    fix s s' :: matcher_state
    assume inv: "P s" and step: "match_step s = Continue s'"
    obtain cs as os where s: "s = (cs, as, os)" by (cases s) auto
    obtain cs' as' os' where s': "s' = (cs', as', os')" by (cases s') auto
    from match_step_Continue [OF step [unfolded s s']] obtain d i j better_name where
      ij: "i < length cs" "j < length as"
      and eqs: "cs' = del i cs" "as' = del j as" "os' = os @ [(d, cs ! i, better_name)]"
      by blast
    have "Suc (length cs') = length cs" "Suc (length as') = length as"
      using ij eqs by (simp_all add: length_del)
    then show "P s'"
      using inv eqs(3) by (simp add: P_def s s')
  qed
  then show ?thesis
    by (auto simp: P_def)
qed

text \<open>
  C9. The loop of the matcher is said to end, to take one element from each working
  list in every round that commits a match, and to exit exactly when no pair exists,
  one list being empty. The loop does end on every input (\<open>matcher_loop_terminates\<close>),
  a committing round does take one element from each list (\<open>match_step_Continue\<close>,
  \<open>length_del\<close>), line 82 is reached exactly when a list is empty
  (\<open>match_step_Break\<close>), and a loop that ends there has made as many matches as the
  shorter list has elements (\<open>matcher_loop_rounds\<close>). But the loop has a second exit:
  on a candidate with the empty name, line 92 raises \<^verbatim>\<open>IndexError\<close> while both lists
  still hold an element. On the rows \<^verbatim>\<open>10 10 10\<close>, \<^verbatim>\<open>0\<close>, \<^verbatim>\<open>teal\<close> and
  \<^verbatim>\<open>1 2 3\<close>, \<^verbatim>\<open>0\<close> with an empty name, the first round commits a match and the second
  round leaves the loop with one palette entry and one candidate left.
\<close>

theorem loop_exit_with_pair_left:
  "match_step
      ([\<lparr>colorId = 16, rgb = (10, 10, 10)\<rparr>, \<lparr>colorId = 17, rgb = (20, 20, 20)\<rparr>],
       [((10, 10, 10), ''teal'', False), ((1, 2, 3), [], False)], [])
    = Continue ([\<lparr>colorId = 17, rgb = (20, 20, 20)\<rparr>], [((1, 2, 3), [], False)],
                [(0, \<lparr>colorId = 16, rgb = (10, 10, 10)\<rparr>, ''Teal'')]) \<and>
   match_step
      ([\<lparr>colorId = 17, rgb = (20, 20, 20)\<rparr>], [((1, 2, 3), [], False)],
       [(0, \<lparr>colorId = 16, rgb = (10, 10, 10)\<rparr>, ''Teal'')])
    = Raise IndexError \<and>
   color_name_picker
      (reserved @ [\<lparr>colorId = 16, rgb = (10, 10, 10)\<rparr>, \<lparr>colorId = 17, rgb = (20, 20, 20)\<rparr>])
      (two_rows (catalog_row ''10 10 10'' ''0'' ''teal'') (catalog_row ''1 2 3'' ''0'' []))
    = Some (Inl IndexError)"
proof -
  have n: "name_normalizer
      (two_rows (catalog_row ''10 10 10'' ''0'' ''teal'') (catalog_row ''1 2 3'' ''0'' []))
    = Inr [((10, 10, 10), ''teal'', False), ((1, 2, 3), [], False)]"
    by code_simp
  have s1: "match_step
      ([\<lparr>colorId = 16, rgb = (10, 10, 10)\<rparr>, \<lparr>colorId = 17, rgb = (20, 20, 20)\<rparr>],
       [((10, 10, 10), ''teal'', False), ((1, 2, 3), [], False)], [])
    = Continue ([\<lparr>colorId = 17, rgb = (20, 20, 20)\<rparr>], [((1, 2, 3), [], False)],
                [(0, \<lparr>colorId = 16, rgb = (10, 10, 10)\<rparr>, ''Teal'')])"
    by code_simp
  have s2: "match_step
      ([\<lparr>colorId = 17, rgb = (20, 20, 20)\<rparr>], [((1, 2, 3), [], False)],
       [(0, \<lparr>colorId = 16, rgb = (10, 10, 10)\<rparr>, ''Teal'')])
    = Raise IndexError"
    by code_simp
  have run: "color_name_picker
      (reserved @ [\<lparr>colorId = 16, rgb = (10, 10, 10)\<rparr>, \<lparr>colorId = 17, rgb = (20, 20, 20)\<rparr>])
      (two_rows (catalog_row ''10 10 10'' ''0'' ''teal'') (catalog_row ''1 2 3'' ''0'' []))
    = Some (Inl IndexError)"
    by (simp add: n color_name_picker_def greedy_matcher_def length_reserved
        matcher_loop_Continue [OF s1] matcher_loop_Raise [OF s2])
  show ?thesis
    using s1 s2 run by (simp only: simp_thms)
qed

text \<open>
  C2. The matches of one run are said to have pairwise different palette identifiers
  and pairwise different assigned names. The names of the candidates are pairwise
  different as they are written, capitals and small letters being different letters
  (line 28), and line 92 turns the first letter into a capital afterwards: the
  candidates \<^verbatim>\<open>foo\<close> and \<^verbatim>\<open>Foo\<close> are both accepted, and both are assigned as
  \<^verbatim>\<open>Foo\<close>.
\<close>

theorem assigned_name_twice:
  "color_name_picker
     (reserved @ [\<lparr>colorId = 16, rgb = (1, 1, 1)\<rparr>, \<lparr>colorId = 17, rgb = (2, 2, 2)\<rparr>])
     (two_rows (catalog_row ''1 1 1'' ''0'' ''foo'') (catalog_row ''2 2 2'' ''0'' ''Foo''))
   = Some (Inr [(0, \<lparr>colorId = 16, rgb = (1, 1, 1)\<rparr>, ''Foo''),
                (0, \<lparr>colorId = 17, rgb = (2, 2, 2)\<rparr>, ''Foo'')])"
proof -
  have n: "name_normalizer
      (two_rows (catalog_row ''1 1 1'' ''0'' ''foo'') (catalog_row ''2 2 2'' ''0'' ''Foo''))
    = Inr [((1, 1, 1), ''foo'', False), ((2, 2, 2), ''Foo'', False)]"
    by code_simp
  have s1: "match_step
      ([\<lparr>colorId = 16, rgb = (1, 1, 1)\<rparr>, \<lparr>colorId = 17, rgb = (2, 2, 2)\<rparr>],
       [((1, 1, 1), ''foo'', False), ((2, 2, 2), ''Foo'', False)], [])
    = Continue ([\<lparr>colorId = 17, rgb = (2, 2, 2)\<rparr>], [((2, 2, 2), ''Foo'', False)],
                [(0, \<lparr>colorId = 16, rgb = (1, 1, 1)\<rparr>, ''Foo'')])"
    by code_simp
  have s2: "match_step
      ([\<lparr>colorId = 17, rgb = (2, 2, 2)\<rparr>], [((2, 2, 2), ''Foo'', False)],
       [(0, \<lparr>colorId = 16, rgb = (1, 1, 1)\<rparr>, ''Foo'')])
    = Continue ([], [],
                [(0, \<lparr>colorId = 16, rgb = (1, 1, 1)\<rparr>, ''Foo''),
                 (0, \<lparr>colorId = 17, rgb = (2, 2, 2)\<rparr>, ''Foo'')])"
    by code_simp
  have s3: "match_step
      ([], [],
       [(0, \<lparr>colorId = 16, rgb = (1, 1, 1)\<rparr>, ''Foo''),
        (0, \<lparr>colorId = 17, rgb = (2, 2, 2)\<rparr>, ''Foo'')])
    = Break"
    by code_simp
  show ?thesis
    by (simp add: n color_name_picker_def greedy_matcher_def length_reserved palette_id_def
        matcher_loop_Continue [OF s1] matcher_loop_Continue [OF s2] matcher_loop_Break [OF s3])
qed

text \<open>
  C2, as the code has it, in two parts that do not depend on each other. When the
  identifiers of the palette are pairwise different, so are the identifiers of the
  matches. When the names of the candidates are still pairwise different after line 92
  has been applied to each of them, the assigned names of the matches are pairwise
  different.
\<close>

theorem match_results_unique:
  assumes "color_name_picker colors text = Some (Inr ms)"
  shows "(distinct (map colorId colors) \<longrightarrow> distinct (map palette_id ms)) \<and>
         (name_normalizer text = Inr cands \<and>
          distinct (map (\<lambda>a. capitalize (fst (snd a))) cands) \<longrightarrow>
            distinct (map assigned_name ms))"
proof -
  from assms obtain cands' ms' where
    norm: "name_normalizer text = Inr cands'"
    and run: "greedy_matcher (drop 16 colors) cands' = Some (Inr ms')"
    and ms: "ms = sort_key palette_id ms'"
    by (auto simp: color_name_picker_def split: option.splits sum.splits)
  have ids: "distinct (map palette_id ms)" if "distinct (map colorId colors)"
  proof -
    from that have "distinct (map colorId (drop 16 colors))"
      by (simp add: drop_map [symmetric])
    from greedy_matcher_unique(1) [OF run this] show ?thesis
      by (simp add: ms distinct_map_sort_key)
  qed
  have names: "distinct (map assigned_name ms)"
    if "name_normalizer text = Inr cands \<and>
        distinct (map (\<lambda>a. capitalize (fst (snd a))) cands)"
  proof -
    from that norm have "distinct (map (\<lambda>a. capitalize (fst (snd a))) cands')"
      by simp
    from greedy_matcher_unique(2) [OF run this] show ?thesis
      by (simp add: ms distinct_map_sort_key)
  qed
  from ids names show ?thesis by blast
qed

theorem match_results_unique_witness:
  "color_name_picker
     (reserved @ [\<lparr>colorId = 16, rgb = (1, 1, 1)\<rparr>, \<lparr>colorId = 17, rgb = (2, 2, 2)\<rparr>])
     (two_rows (catalog_row ''1 1 1'' ''0'' ''foo'') (catalog_row ''2 2 2'' ''0'' ''bar''))
   = Some (Inr [(0, \<lparr>colorId = 16, rgb = (1, 1, 1)\<rparr>, ''Foo''),
                (0, \<lparr>colorId = 17, rgb = (2, 2, 2)\<rparr>, ''Bar'')]) \<and>
   distinct (map colorId
     (reserved @ [\<lparr>colorId = 16, rgb = (1, 1, 1)\<rparr>, \<lparr>colorId = 17, rgb = (2, 2, 2)\<rparr>])) \<and>
   name_normalizer
     (two_rows (catalog_row ''1 1 1'' ''0'' ''foo'') (catalog_row ''2 2 2'' ''0'' ''bar''))
   = Inr [((1, 1, 1), ''foo'', False), ((2, 2, 2), ''bar'', False)] \<and>
   distinct (map (\<lambda>a. capitalize (fst (snd a)))
     [((1, 1, 1), ''foo'', False), ((2, 2, 2), ''bar'', False) :: candidate]) \<and>
   distinct (map palette_id [(0, \<lparr>colorId = 16, rgb = (1, 1, 1)\<rparr>, ''Foo''),
                             (0, \<lparr>colorId = 17, rgb = (2, 2, 2)\<rparr>, ''Bar'')]) \<and>
   distinct (map assigned_name [(0, \<lparr>colorId = 16, rgb = (1, 1, 1)\<rparr>, ''Foo''),
                                (0, \<lparr>colorId = 17, rgb = (2, 2, 2)\<rparr>, ''Bar'')])"
proof -
  have n: "name_normalizer
      (two_rows (catalog_row ''1 1 1'' ''0'' ''foo'') (catalog_row ''2 2 2'' ''0'' ''bar''))
    = Inr [((1, 1, 1), ''foo'', False), ((2, 2, 2), ''bar'', False)]"
    by code_simp
  have s1: "match_step
      ([\<lparr>colorId = 16, rgb = (1, 1, 1)\<rparr>, \<lparr>colorId = 17, rgb = (2, 2, 2)\<rparr>],
       [((1, 1, 1), ''foo'', False), ((2, 2, 2), ''bar'', False)], [])
    = Continue ([\<lparr>colorId = 17, rgb = (2, 2, 2)\<rparr>], [((2, 2, 2), ''bar'', False)],
                [(0, \<lparr>colorId = 16, rgb = (1, 1, 1)\<rparr>, ''Foo'')])"
    by code_simp
  have s2: "match_step
      ([\<lparr>colorId = 17, rgb = (2, 2, 2)\<rparr>], [((2, 2, 2), ''bar'', False)],
       [(0, \<lparr>colorId = 16, rgb = (1, 1, 1)\<rparr>, ''Foo'')])
    = Continue ([], [],
                [(0, \<lparr>colorId = 16, rgb = (1, 1, 1)\<rparr>, ''Foo''),
                 (0, \<lparr>colorId = 17, rgb = (2, 2, 2)\<rparr>, ''Bar'')])"
    by code_simp
  have s3: "match_step
      ([], [],
       [(0, \<lparr>colorId = 16, rgb = (1, 1, 1)\<rparr>, ''Foo''),
        (0, \<lparr>colorId = 17, rgb = (2, 2, 2)\<rparr>, ''Bar'')])
    = Break"
    by code_simp
  have run: "color_name_picker
     (reserved @ [\<lparr>colorId = 16, rgb = (1, 1, 1)\<rparr>, \<lparr>colorId = 17, rgb = (2, 2, 2)\<rparr>])
     (two_rows (catalog_row ''1 1 1'' ''0'' ''foo'') (catalog_row ''2 2 2'' ''0'' ''bar''))
   = Some (Inr [(0, \<lparr>colorId = 16, rgb = (1, 1, 1)\<rparr>, ''Foo''),
                (0, \<lparr>colorId = 17, rgb = (2, 2, 2)\<rparr>, ''Bar'')])"
    by (simp add: n color_name_picker_def greedy_matcher_def length_reserved palette_id_def
        matcher_loop_Continue [OF s1] matcher_loop_Continue [OF s2] matcher_loop_Break [OF s3])
  have ids: "distinct (map colorId
     (reserved @ [\<lparr>colorId = 16, rgb = (1, 1, 1)\<rparr>, \<lparr>colorId = 17, rgb = (2, 2, 2)\<rparr>]))"
    by code_simp
  have caps: "distinct (map (\<lambda>a. capitalize (fst (snd a)))
     [((1, 1, 1), ''foo'', False), ((2, 2, 2), ''bar'', False) :: candidate])"
    by code_simp
  note w = match_results_unique [OF run, of "[((1, 1, 1), ''foo'', False), ((2, 2, 2), ''bar'', False)]"]
  have u1: "distinct (map palette_id [(0, \<lparr>colorId = 16, rgb = (1, 1, 1)\<rparr>, ''Foo''),
                             (0, \<lparr>colorId = 17, rgb = (2, 2, 2)\<rparr>, ''Bar'')])"
    by (rule w [THEN conjunct1, THEN mp, OF ids])
  have u2: "distinct (map assigned_name [(0, \<lparr>colorId = 16, rgb = (1, 1, 1)\<rparr>, ''Foo''),
                                (0, \<lparr>colorId = 17, rgb = (2, 2, 2)\<rparr>, ''Bar'')])"
    by (rule w [THEN conjunct2, THEN mp, OF conjI [OF n caps]])
  show ?thesis
    using run ids n caps u1 u2 by (simp only: simp_thms)
qed

text \<open>
  C8. The order of the candidates: the list that the normalizer returns is the list of
  the accepted candidates in the order of their rows, sorted at line 57; all candidates
  without a digit come first, all candidates with a digit after them, and inside each
  of the two groups the candidates keep the order of their rows.
\<close>

theorem candidates_sorted_stably:
  "name_normalizer text = Inr cands \<Longrightarrow>
   \<exists>st. normalize_rows initial_state (color_names text) = Inr st \<and>
        cands = filter (\<lambda>a. \<not> snd (snd a)) (all_colors st) @
                filter (\<lambda>a. snd (snd a)) (all_colors st)"
  by (auto simp: name_normalizer_def sort_has_digit_def sort_key_bool split: sum.splits)

theorem candidates_sorted_stably_witness:
  "name_normalizer
     (two_rows (catalog_row ''1 1 1'' ''0'' ''a1'')
        (two_rows (catalog_row ''2 2 2'' ''0'' ''b'')
           (two_rows (catalog_row ''3 3 3'' ''0'' ''c2'') (catalog_row ''4 4 4'' ''0'' ''d''))))
     = Inr [((2, 2, 2), ''b'', False), ((4, 4, 4), ''d'', False),
            ((1, 1, 1), ''a1'', True), ((3, 3, 3), ''c2'', True)] \<and>
   (\<exists>st. normalize_rows initial_state (color_names
     (two_rows (catalog_row ''1 1 1'' ''0'' ''a1'')
        (two_rows (catalog_row ''2 2 2'' ''0'' ''b'')
           (two_rows (catalog_row ''3 3 3'' ''0'' ''c2'') (catalog_row ''4 4 4'' ''0'' ''d''))))) = Inr st \<and>
      [((2, 2, 2), ''b'', False), ((4, 4, 4), ''d'', False),
       ((1, 1, 1), ''a1'', True), ((3, 3, 3), ''c2'', True)] =
        filter (\<lambda>a. \<not> snd (snd a)) (all_colors st) @
        filter (\<lambda>a. snd (snd a)) (all_colors st))"
proof -
  have h: "name_normalizer
     (two_rows (catalog_row ''1 1 1'' ''0'' ''a1'')
        (two_rows (catalog_row ''2 2 2'' ''0'' ''b'')
           (two_rows (catalog_row ''3 3 3'' ''0'' ''c2'') (catalog_row ''4 4 4'' ''0'' ''d''))))
     = Inr [((2, 2, 2), ''b'', False), ((4, 4, 4), ''d'', False),
            ((1, 1, 1), ''a1'', True), ((3, 3, 3), ''c2'', True)]"
    by code_simp
  from h candidates_sorted_stably [OF h] show ?thesis by (rule conjI)
qed




text \<open>
  C3. Every catalog row whose colour field is not three integers, three pieces that
  are no numbers in particular, is said to abort the run, none being skipped. The
  pieces are converted at line 50 only, when the row is accepted: a row with the colour
  field \<^verbatim>\<open>a b c\<close> and the name \<^verbatim>\<open>X11foo\<close> is skipped at line 23, and the run goes on
  to its result.
\<close>

theorem malformed_row_skipped:
  "color_name_picker (reserved @ [\<lparr>colorId = 99, rgb = (10, 10, 10)\<rparr>])
     (two_rows (catalog_row ''a b c'' ''0'' ''X11foo'') (catalog_row ''12 12 12'' ''0'' ''nearblack''))
   = Some (Inr [(12, \<lparr>colorId = 99, rgb = (10, 10, 10)\<rparr>, ''Nearblack'')])"
proof -
  have n: "name_normalizer
      (two_rows (catalog_row ''a b c'' ''0'' ''X11foo'') (catalog_row ''12 12 12'' ''0'' ''nearblack''))
    = Inr [((12, 12, 12), ''nearblack'', False)]"
    by code_simp
  have s1: "match_step ([\<lparr>colorId = 99, rgb = (10, 10, 10)\<rparr>],
                        [((12, 12, 12), ''nearblack'', False)], [])
             = Continue ([], [], [(12, \<lparr>colorId = 99, rgb = (10, 10, 10)\<rparr>, ''Nearblack'')])"
    by code_simp
  have s2: "match_step ([], [], [(12, \<lparr>colorId = 99, rgb = (10, 10, 10)\<rparr>, ''Nearblack'')])
             = Break"
    by code_simp
  show ?thesis
    by (simp add: n color_name_picker_def greedy_matcher_def length_reserved
        matcher_loop_Continue [OF s1] matcher_loop_Break [OF s2])
qed

text \<open>
  C3, as the code has it, in three parts. A row that has not three fields, or whose
  colour field has not three pieces, aborts the run with \<^verbatim>\<open>ValueError\<close>. A row with
  three pieces that one of the tests of lines 19 to 41 rejects is skipped, whatever the
  pieces are: the normalizer does on the catalog what it does on the catalog without
  the row. A row with three pieces that no test rejects, and one of whose pieces is not
  an integer, aborts the run with \<^verbatim>\<open>ValueError\<close>.
\<close>

theorem parse_failure_unless_rejected:
  "(row \<in> set (color_names text) \<and> (length row \<noteq> 3 \<or> length (split (hd row)) \<noteq> 3) \<longrightarrow>
      color_name_picker colors text = Some (Inl ValueError)) \<and>
   (normalize_rows initial_state pre = Inr st \<and> split rgb_field = [tr, tg, tb] \<and>
    rejects st (tr, tg, tb) raw_name \<longrightarrow>
      normalize_rows initial_state (pre @ [rgb_field, unused, raw_name] # post) =
      normalize_rows initial_state (pre @ post)) \<and>
   (color_names text = pre @ [rgb_field, unused, raw_name] # post \<and>
    normalize_rows initial_state pre = Inr st \<and> split rgb_field = [tr, tg, tb] \<and>
    \<not> rejects st (tr, tg, tb) raw_name \<and>
    (py_int tr = None \<or> py_int tg = None \<or> py_int tb = None) \<longrightarrow>
      color_name_picker colors text = Some (Inl ValueError))"
proof (intro conjI impI)
  assume "row \<in> set (color_names text) \<and> (length row \<noteq> 3 \<or> length (split (hd row)) \<noteq> 3)"
  then have "normalize_rows initial_state (color_names text) = Inl ValueError"
    using normalize_rows_malformed by blast
  then show "color_name_picker colors text = Some (Inl ValueError)"
    by (simp add: color_name_picker_def name_normalizer_def)
next
  assume a: "normalize_rows initial_state pre = Inr st \<and> split rgb_field = [tr, tg, tb] \<and>
    rejects st (tr, tg, tb) raw_name"
  then have "normalize_row st [rgb_field, unused, raw_name] = Inr st"
    using normalize_row_three [of rgb_field tr tg tb st unused raw_name] by simp
  with a show "normalize_rows initial_state (pre @ [rgb_field, unused, raw_name] # post) =
      normalize_rows initial_state (pre @ post)"
    using normalize_rows_skip by blast
next
  assume a: "color_names text = pre @ [rgb_field, unused, raw_name] # post \<and>
    normalize_rows initial_state pre = Inr st \<and> split rgb_field = [tr, tg, tb] \<and>
    \<not> rejects st (tr, tg, tb) raw_name \<and>
    (py_int tr = None \<or> py_int tg = None \<or> py_int tb = None)"
  then have "normalize_row st [rgb_field, unused, raw_name] = Inl ValueError"
    using normalize_row_three [of rgb_field tr tg tb st unused raw_name]
    by (auto split: option.splits)
  with a have "normalize_rows initial_state (color_names text) = Inl ValueError"
    using normalize_rows_abort [of initial_state pre st "[rgb_field, unused, raw_name]" ValueError post]
    by simp
  then show "color_name_picker colors text = Some (Inl ValueError)"
    by (simp add: color_name_picker_def name_normalizer_def)
qed

theorem parse_failure_unless_rejected_witness:
  "[''1 2'', ''0'', ''teal''] \<in> set (color_names (catalog_row ''1 2'' ''0'' ''teal'')) \<and>
   length (split (hd [''1 2'', ''0'', ''teal''])) \<noteq> 3 \<and>
   color_name_picker reserved (catalog_row ''1 2'' ''0'' ''teal'') = Some (Inl ValueError) \<and>
   normalize_rows initial_state [] = Inr initial_state \<and>
   split ''a b c'' = [''a'', ''b'', ''c''] \<and>
   rejects initial_state (''a'', ''b'', ''c'') ''X11foo'' \<and>
   normalize_rows initial_state ([] @ [''a b c'', ''0'', ''X11foo''] # [[''4 5 6'', ''0'', ''teal'']]) =
     normalize_rows initial_state ([] @ [[''4 5 6'', ''0'', ''teal'']]) \<and>
   color_names (catalog_row ''a b c'' ''0'' ''teal'') = [] @ [''a b c'', ''0'', ''teal''] # [] \<and>
   \<not> rejects initial_state (''a'', ''b'', ''c'') ''teal'' \<and>
   py_int ''a'' = None \<and>
   color_name_picker reserved (catalog_row ''a b c'' ''0'' ''teal'') = Some (Inl ValueError)"
proof -
  have a1: "[''1 2'', ''0'', ''teal''] \<in> set (color_names (catalog_row ''1 2'' ''0'' ''teal''))"
    by code_simp
  have a2: "length (split (hd [''1 2'', ''0'', ''teal''])) \<noteq> 3"
    by code_simp
  have b1: "normalize_rows initial_state [] = Inr initial_state"
    by simp
  have b2: "split ''a b c'' = [''a'', ''b'', ''c'']"
    by code_simp
  have b3: "rejects initial_state (''a'', ''b'', ''c'') ''X11foo''"
    by code_simp
  have c1: "color_names (catalog_row ''a b c'' ''0'' ''teal'') = [] @ [''a b c'', ''0'', ''teal''] # []"
    by code_simp
  have c2: "\<not> rejects initial_state (''a'', ''b'', ''c'') ''teal''"
    by code_simp
  have c3: "py_int ''a'' = None"
    by code_simp
  have r1: "color_name_picker reserved (catalog_row ''1 2'' ''0'' ''teal'') = Some (Inl ValueError)"
    using parse_failure_unless_rejected
      [of "[''1 2'', ''0'', ''teal'']" "catalog_row ''1 2'' ''0'' ''teal''" reserved]
      a1 a2 by blast
  have r2: "normalize_rows initial_state ([] @ [''a b c'', ''0'', ''X11foo''] # [[''4 5 6'', ''0'', ''teal'']]) =
     normalize_rows initial_state ([] @ [[''4 5 6'', ''0'', ''teal'']])"
    using parse_failure_unless_rejected
      [of _ _ _ "[]" initial_state "''a b c''" "''a''" "''b''" "''c''" "''X11foo''" "''0''"
        "[[''4 5 6'', ''0'', ''teal'']]"]
      b1 b2 b3 by blast
  have r3: "color_name_picker reserved (catalog_row ''a b c'' ''0'' ''teal'') = Some (Inl ValueError)"
    using parse_failure_unless_rejected
      [of _ "catalog_row ''a b c'' ''0'' ''teal''" reserved "[]" initial_state "''a b c''"
        "''a''" "''b''" "''c''" "''teal''" "''0''" "[]"]
      b1 b2 c1 c2 c3 by blast
  show ?thesis
    using a1 a2 r1 b1 b2 b3 r2 c1 c2 c3 r3 by (simp only: simp_thms)
qed

end
